theory Spec2Isabelle
  imports Main "HOL-Library.Sublist"
begin

section \<open>Errors and the outside world\<close>

text \<open>
  The two scripts (\<^verbatim>\<open>WebScapper.py\<close> and \<^verbatim>\<open>enhanced_bing.py\<close>) share the classes
  modelled here word for word. Every call into the browser library may raise; an
  exception is a value of \<open>error\<close>, and a computation that may raise returns
  \<open>error + 'a\<close> with \<open>Inl\<close> for the exception.
\<close>

datatype error = WebDriverException | NoSuchFrame | NoSuchElement | AttributeError | CouldNotLocate

subsection \<open>Clock, sleeps and the trace of a run\<close>

text \<open>
  \<^verbatim>\<open>time.time()\<close> and \<^verbatim>\<open>time.sleep()\<close> act on a clock. The clock is read in
  milliseconds (\<^verbatim>\<open>time.sleep(2)\<close> adds 2000) and never runs backwards: a sleep advances
  it by its duration, a call into the browser by the time the call takes. The world also
  keeps the trace of what the run did, so that statements about sleeping are statements
  about the trace: \<open>Slept\<close> for a sleep, \<open>Polled\<close> for a polling round that completed
  with the URLs it kept, \<open>Raised\<close> for a round that ended in an exception.
\<close>

datatype event = Slept int | Polled "string list" | Raised error

record world =
  clock :: int
  log :: "event list"

definition sleep :: "int \<Rightarrow> world \<Rightarrow> world" where
  "sleep ms w = w\<lparr>clock := clock w + ms, log := log w @ [Slept ms]\<rparr>"

definition emit :: "event \<Rightarrow> world \<Rightarrow> world" where
  "emit ev w = w\<lparr>log := log w @ [ev]\<rparr>"

section \<open>ImageProcessor.get_image_urls\<close>

text \<open>
  An image element is what \<^verbatim>\<open>elem.get_attribute("src")\<close> does on it: it raises, or it
  returns \<^verbatim>\<open>None\<close> or a string. The browser answers
  \<^verbatim>\<open>find_elements(By.CSS_SELECTOR, "img.image-row-img")\<close> according to the clock reading
  at which it is asked, and the whole round (the lookup and the attribute reads) takes
  \<open>latency\<close> milliseconds.
\<close>

type_synonym element = "error + string option"

record browser =
  find_elements :: "int \<Rightarrow> error + element list"
  latency :: "int \<Rightarrow> nat"

definition startswith :: "string \<Rightarrow> string \<Rightarrow> bool" where
  "startswith s p = prefix p s"

text \<open>
  The inner \<^verbatim>\<open>for elem in image_elements\<close> loop, with \<open>urls\<close> the list built so far.
  \<^verbatim>\<open>if src and ...\<close> rejects both \<^verbatim>\<open>None\<close> and the empty string.
\<close>

fun collect :: "element list \<Rightarrow> string list \<Rightarrow> error + string list" where
  "collect [] urls = Inr urls"
| "collect (elem # elems) urls =
     (case elem of
        Inl e \<Rightarrow> Inl e
      | Inr None \<Rightarrow> collect elems urls
      | Inr (Some src) \<Rightarrow>
          if src \<noteq> [] \<and> (startswith src ''http'' \<or> startswith src ''blob:'') \<and> src \<notin> set urls
          then collect elems (urls @ [src])
          else collect elems urls)"

definition poll_timeout :: int where
  "poll_timeout = 60000"

text \<open>
  The \<^verbatim>\<open>while time.time() - start_time < poll_timeout\<close> loop. \<open>urls\<close> is the variable
  of the same name: it is overwritten by every round that completes.
\<close>

function poll_loop :: "browser \<Rightarrow> int \<Rightarrow> world \<Rightarrow> string list \<Rightarrow> (error + string list) \<times> world" where
  "poll_loop b start_time w urls =
     (if clock w - start_time < poll_timeout then
        (let w1 = w\<lparr>clock := clock w + int (latency b (clock w))\<rparr> in
         case find_elements b (clock w) of
           Inl e \<Rightarrow> (Inl e, emit (Raised e) w1)
         | Inr image_elements \<Rightarrow>
             (case collect image_elements [] of
                Inl e \<Rightarrow> (Inl e, emit (Raised e) w1)
              | Inr urls' \<Rightarrow>
                  if length urls' \<ge> 4 then (Inr urls', emit (Polled urls') w1)
                  else poll_loop b start_time (sleep 2000 (emit (Polled urls') w1)) urls'))
      else (Inr urls, w))"
  by pat_completeness auto
termination
  by (relation "measure (\<lambda>(b, start_time, w, urls). nat (start_time + poll_timeout - clock w))")
     (auto simp: sleep_def emit_def)

text \<open>The padding loop \<^verbatim>\<open>while len(urls) < 4: urls.append("")\<close>.\<close>

function pad :: "string list \<Rightarrow> string list" where
  "pad urls = (if length urls < 4 then pad (urls @ ['''']) else urls)"
  by pat_completeness auto
termination
  by (relation "measure (\<lambda>urls. 4 - length urls)") auto

declare poll_loop.simps [simp del]
declare pad.simps [simp del]

definition get_image_urls :: "browser \<Rightarrow> world \<Rightarrow> (error + string list) \<times> world" where
  "get_image_urls b w =
     (let w1 = sleep 10000 w;
          start_time = clock w1;
          (r, w2) = poll_loop b start_time w1 []
      in case r of
           Inl e \<Rightarrow> (Inl e, w2)
         | Inr urls \<Rightarrow> (Inr (take 4 (pad urls)), w2))"

section \<open>Locating the prompt input across frames\<close>

text \<open>
  The browser has one current browsing context: the main document or an iframe that was
  switched into. A page answers three questions: whether a selector is present in a
  context (the lookup may raise), which iframe elements
  \<^verbatim>\<open>find_elements(By.TAG_NAME, "iframe")\<close> lists in a context, and whether
  \<^verbatim>\<open>switch_to.frame(iframe)\<close> succeeds from a context (a stale reference raises).
  \<^verbatim>\<open>switch_to.default_content()\<close> and the listing of the iframes are taken not to
  raise. Every function below takes the current context and returns the new one next to
  its result.
\<close>

datatype "context" = Main | Frame nat

record page =
  present :: "string \<Rightarrow> context \<Rightarrow> error + bool"
  iframes :: "context \<Rightarrow> nat list"
  can_switch :: "context \<Rightarrow> nat \<Rightarrow> bool"

definition default_content :: "context \<Rightarrow> context" where
  "default_content ctx = Main"

definition switch_to_frame :: "page \<Rightarrow> nat \<Rightarrow> context \<Rightarrow> error + context" where
  "switch_to_frame p iframe ctx =
     (if can_switch p ctx iframe then Inr (Frame iframe) else Inl NoSuchFrame)"

definition is_element_present :: "page \<Rightarrow> string \<Rightarrow> context \<Rightarrow> error + bool" where
  "is_element_present p sel ctx = present p sel ctx"

text \<open>
  \<^verbatim>\<open>wait_for_element_present\<close> returns the element or raises when the wait times out; the
  element is identified by the context it was found in.
\<close>

definition wait_for_element_present :: "page \<Rightarrow> string \<Rightarrow> context \<Rightarrow> error + context" where
  "wait_for_element_present p sel ctx =
     (case present p sel ctx of
        Inl e \<Rightarrow> Inl e
      | Inr found \<Rightarrow> if found then Inr ctx else Inl NoSuchElement)"

text \<open>
  The \<^verbatim>\<open>for iframe in iframes\<close> loop of \<^verbatim>\<open>switch_to_prompt_frame\<close> and of
  \<^verbatim>\<open>switch_to_create_button_frame\<close> (the two differ in the selector only), followed by
  the final \<^verbatim>\<open>switch_to.default_content(); return False\<close>. The \<^verbatim>\<open>try\<close> covers the
  switch and the presence test; \<^verbatim>\<open>except Exception: pass\<close> falls through to the
  \<^verbatim>\<open>default_content\<close> call that ends every iteration which did not return.
\<close>

fun frame_search :: "page \<Rightarrow> string \<Rightarrow> nat list \<Rightarrow> context \<Rightarrow> bool \<times> context" where
  "frame_search p sel [] ctx = (False, default_content ctx)"
| "frame_search p sel (iframe # rest) ctx =
     (case switch_to_frame p iframe ctx of
        Inl e \<Rightarrow> frame_search p sel rest (default_content ctx)
      | Inr ctx1 \<Rightarrow>
          (case is_element_present p sel ctx1 of
             Inl e \<Rightarrow> frame_search p sel rest (default_content ctx1)
           | Inr found \<Rightarrow>
               if found then (True, ctx1)
               else frame_search p sel rest (default_content ctx1)))"

definition switch_to_frame_with :: "string \<Rightarrow> page \<Rightarrow> context \<Rightarrow> (error + bool) \<times> context" where
  "switch_to_frame_with sel p ctx0 =
     (let ctx = default_content ctx0 in
      case is_element_present p sel ctx of
        Inl e \<Rightarrow> (Inl e, ctx)
      | Inr found \<Rightarrow>
          if found then (Inr True, ctx)
          else (let (r, ctx') = frame_search p sel (iframes p ctx) ctx in (Inr r, ctx')))"

definition switch_to_prompt_frame :: "page \<Rightarrow> context \<Rightarrow> (error + bool) \<times> context" where
  "switch_to_prompt_frame = switch_to_frame_with ''#gi_form_q''"

definition switch_to_create_button_frame :: "page \<Rightarrow> context \<Rightarrow> (error + bool) \<times> context" where
  "switch_to_create_button_frame = switch_to_frame_with ''#create_btn_c''"

text \<open>
  \<^verbatim>\<open>AuthenticationManager._get_prompt_input_element\<close>: no reset on entry, the first
  lookup runs in whatever context is current; the loop returns the element or, past the
  last iframe, resets the context and raises.
\<close>

fun input_search :: "page \<Rightarrow> nat list \<Rightarrow> context \<Rightarrow> (error + context) \<times> context" where
  "input_search p [] ctx = (Inl CouldNotLocate, default_content ctx)"
| "input_search p (iframe # rest) ctx =
     (case switch_to_frame p iframe ctx of
        Inl e \<Rightarrow> input_search p rest (default_content ctx)
      | Inr ctx1 \<Rightarrow>
          (case wait_for_element_present p ''#gi_form_q'' ctx1 of
             Inl e \<Rightarrow> input_search p rest (default_content ctx1)
           | Inr element \<Rightarrow> (Inr element, ctx1)))"

definition get_prompt_input_element :: "page \<Rightarrow> context \<Rightarrow> (error + context) \<times> context" where
  "get_prompt_input_element p ctx =
     (case wait_for_element_present p ''#gi_form_q'' ctx of
        Inr element \<Rightarrow> (Inr element, ctx)
      | Inl e \<Rightarrow> input_search p (iframes p ctx) ctx)"

text \<open>
  Vocabulary of the statements: an iframe holds the target when it can be entered from
  the main document (where every iteration of the loops starts) and the presence test
  inside it answers yes; it raises when the switch or the presence test raises.
\<close>

definition holds_target :: "page \<Rightarrow> string \<Rightarrow> nat \<Rightarrow> bool" where
  "holds_target p sel iframe =
     (can_switch p Main iframe \<and> present p sel (Frame iframe) = Inr True)"

definition frame_raises :: "page \<Rightarrow> string \<Rightarrow> context \<Rightarrow> nat \<Rightarrow> bool" where
  "frame_raises p sel ctx iframe =
     (\<not> can_switch p ctx iframe \<or>
      (case present p sel (Frame iframe) of Inl e \<Rightarrow> True | Inr found \<Rightarrow> False))"

text \<open>
  The page that never raises inside the loop: every switch succeeds, and the presence
  test in an iframe that could not be entered, or whose test raised, answers "absent".
\<close>

definition quiet :: "page \<Rightarrow> page" where
  "quiet p =
     p\<lparr>present := (\<lambda>sel ctx.
          case ctx of
            Main \<Rightarrow> present p sel Main
          | Frame f \<Rightarrow>
              if can_switch p Main f
              then (case present p sel (Frame f) of Inl e \<Rightarrow> Inr False | Inr found \<Rightarrow> Inr found)
              else Inr False),
        can_switch := (\<lambda>ctx f. True)\<rparr>"

section \<open>CookieManager.load_cookies\<close>

text \<open>
  A cookie record is a JSON object: a dictionary from keys to JSON values. Only strings
  are looked into (\<^verbatim>\<open>startswith\<close>); every other JSON value is opaque, and calling
  \<^verbatim>\<open>startswith\<close> on it raises \<^verbatim>\<open>AttributeError\<close>.
\<close>

datatype 'v jvalue = JStr string | JOther 'v

type_synonym 'v cookie = "string \<rightharpoonup> 'v jvalue"

definition allowed_keys :: "string set" where
  "allowed_keys = {''name'', ''value'', ''path'', ''domain'', ''secure'', ''expiry''}"

text \<open>\<^verbatim>\<open>if 'expires' in cookie: cookie['expiry'] = cookie.pop('expires')\<close>\<close>

definition rename_expires :: "'v cookie \<Rightarrow> 'v cookie" where
  "rename_expires cookie =
     (case cookie ''expires'' of
        None \<Rightarrow> cookie
      | Some v \<Rightarrow> (cookie(''expires'' := None))(''expiry'' \<mapsto> v))"

text \<open>\<^verbatim>\<open>if cookie.get("domain", "").startswith("."): cookie["domain"] = "www.bing.com"\<close>\<close>

definition adjust_domain :: "'v cookie \<Rightarrow> error + 'v cookie" where
  "adjust_domain cookie =
     (case (case cookie ''domain'' of None \<Rightarrow> JStr [] | Some v \<Rightarrow> v) of
        JOther v \<Rightarrow> Inl AttributeError
      | JStr d \<Rightarrow>
          if startswith d ''.'' then Inr (cookie(''domain'' \<mapsto> JStr ''www.bing.com''))
          else Inr cookie)"

text \<open>\<^verbatim>\<open>filtered_cookie = {k: cookie[k] for k in cookie if k in allowed_keys}\<close>\<close>

definition filter_allowed :: "'v cookie \<Rightarrow> 'v cookie" where
  "filter_allowed cookie = (\<lambda>k. if k \<in> allowed_keys then cookie k else None)"

definition prepare_cookie :: "'v cookie \<Rightarrow> error + 'v cookie" where
  "prepare_cookie cookie =
     (case adjust_domain (rename_expires cookie) of
        Inl e \<Rightarrow> Inl e
      | Inr cookie' \<Rightarrow> Inr (filter_allowed cookie'))"

text \<open>
  The \<^verbatim>\<open>for cookie in cookies\<close> loop. \<open>accepts\<close> says whether \<^verbatim>\<open>add_cookie\<close> takes
  the record or raises (caught inside the loop, with a warning); \<open>jar\<close> is the list of
  records the browser has accepted. An exception raised while a record is prepared
  reaches the outer handler, and \<^verbatim>\<open>load_cookies\<close> returns \<^verbatim>\<open>False\<close>.
\<close>

fun load_cookies :: "('v cookie \<Rightarrow> bool) \<Rightarrow> 'v cookie list \<Rightarrow> 'v cookie list \<Rightarrow> bool \<times> 'v cookie list" where
  "load_cookies accepts [] jar = (True, jar)"
| "load_cookies accepts (cookie # cookies) jar =
     (case prepare_cookie cookie of
        Inl e \<Rightarrow> (False, jar)
      | Inr filtered_cookie \<Rightarrow>
          load_cookies accepts cookies
            (if accepts filtered_cookie then jar @ [filtered_cookie] else jar))"

section \<open>ImageProcessor.to_kebab_case\<close>

text \<open>
  A Python string is a sequence of Unicode code points. The regular expressions and the
  string methods consult the Unicode tables of the Python runtime, which are a parameter
  here: which code points \<^verbatim>\<open>\w\<close> matches, which are whitespace (for \<^verbatim>\<open>\s\<close> and for
  \<^verbatim>\<open>strip\<close>, which use the same test), and what \<^verbatim>\<open>str.lower\<close> returns.
\<close>

type_synonym ustring = "nat list"

record unicode =
  is_word :: "nat \<Rightarrow> bool"
  is_space :: "nat \<Rightarrow> bool"
  str_lower :: "ustring \<Rightarrow> ustring"

definition hyphen :: nat where
  "hyphen = 45"

definition strip :: "unicode \<Rightarrow> ustring \<Rightarrow> ustring" where
  "strip U s = rev (dropWhile (is_space U) (rev (dropWhile (is_space U) s)))"

text \<open>\<^verbatim>\<open>re.sub(r'[^\w\s-]', '', s)\<close>: every code point outside the class is deleted.\<close>

definition remove_other :: "unicode \<Rightarrow> ustring \<Rightarrow> ustring" where
  "remove_other U s = filter (\<lambda>c. is_word U c \<or> is_space U c \<or> c = hyphen) s"

text \<open>
  \<^verbatim>\<open>re.sub(r'[-\s]+', '-', s)\<close>: every maximal run of hyphens and whitespace becomes one
  hyphen.
\<close>

definition is_sep :: "unicode \<Rightarrow> nat \<Rightarrow> bool" where
  "is_sep U c = (c = hyphen \<or> is_space U c)"

function squeeze :: "unicode \<Rightarrow> ustring \<Rightarrow> ustring" where
  "squeeze U [] = []"
| "squeeze U (c # cs) =
     (if is_sep U c then hyphen # squeeze U (dropWhile (is_sep U) cs)
      else c # squeeze U cs)"
  by pat_completeness auto
termination
  by (relation "measure (\<lambda>(U, s). length s)")
     (auto simp: length_dropWhile_le less_Suc_eq_le)

definition to_kebab_case :: "unicode \<Rightarrow> ustring \<Rightarrow> ustring" where
  "to_kebab_case U text = str_lower U (squeeze U (remove_other U (strip U text)))"

text \<open>
  The tables on ASCII: \<^verbatim>\<open>[A-Za-z0-9_]\<close>, the ten ASCII whitespace characters, and
  lower-casing of \<^verbatim>\<open>A-Z\<close>.
\<close>

definition ascii_word :: "nat \<Rightarrow> bool" where
  "ascii_word c =
     ((48 \<le> c \<and> c \<le> 57) \<or> (65 \<le> c \<and> c \<le> 90) \<or> c = 95 \<or> (97 \<le> c \<and> c \<le> 122))"

definition ascii_space :: "nat \<Rightarrow> bool" where
  "ascii_space c = ((9 \<le> c \<and> c \<le> 13) \<or> (28 \<le> c \<and> c \<le> 32))"

definition ascii_lower :: "nat \<Rightarrow> nat" where
  "ascii_lower c = (if 65 \<le> c \<and> c \<le> 90 then c + 32 else c)"

definition is_ascii :: "ustring \<Rightarrow> bool" where
  "is_ascii s = list_all (\<lambda>c. c < 128) s"

definition agrees_with_ascii :: "unicode \<Rightarrow> bool" where
  "agrees_with_ascii U =
     ((\<forall>c<128. is_word U c = ascii_word c \<and> is_space U c = ascii_space c) \<and>
      (\<forall>s. is_ascii s \<longrightarrow> str_lower U s = map ascii_lower s))"

text \<open>
  A fragment of the tables beyond ASCII: U+0130 (capital I with dot above) is a letter
  whose lower case is the two code points U+0069 U+0307, and U+0307 (combining dot above)
  is a mark, neither a word character nor whitespace.
\<close>

definition lower_sample :: "nat \<Rightarrow> ustring" where
  "lower_sample c = (if c = 304 then [105, 775] else [ascii_lower c])"

definition unicode_sample :: unicode where
  "unicode_sample =
     \<lparr>is_word = (\<lambda>c. ascii_word c \<or> c = 304),
      is_space = ascii_space,
      str_lower = (\<lambda>s. concat (map lower_sample s))\<rparr>"

section \<open>Vocabulary of the statements\<close>

subsection \<open>Statements about the poller\<close>



fun first_seen :: "'a list \<Rightarrow> 'a list" where
  "first_seen [] = []"
| "first_seen (x # xs) = x # filter (\<lambda>y. y \<noteq> x) (first_seen xs)"

text \<open>
  \<open>found_urls\<close> is the value of \<open>urls\<close> when the polling loop of a call ends (before
  padding); \<open>never_raises\<close> says that no lookup and no attribute read of the browser ever
  raises; \<open>round_raises\<close> that the round polled at clock reading \<open>t\<close> ends in the
  exception \<open>e\<close>; \<open>new_events\<close> is the part of the trace that a call appends.
\<close>

definition found_urls :: "browser \<Rightarrow> world \<Rightarrow> error + string list" where
  "found_urls b w = fst (poll_loop b (clock (sleep 10000 w)) (sleep 10000 w) [])"

definition never_raises :: "browser \<Rightarrow> bool" where
  "never_raises b = (\<forall>t. \<exists>elems. find_elements b t = Inr elems \<and> (\<forall>elem\<in>set elems. \<exists>src. elem = Inr src))"

definition round_raises :: "browser \<Rightarrow> int \<Rightarrow> error \<Rightarrow> bool" where
  "round_raises b t e =
     (case find_elements b t of
        Inl e' \<Rightarrow> e' = e
      | Inr elems \<Rightarrow> collect elems [] = Inl e)"

definition new_events :: "browser \<Rightarrow> world \<Rightarrow> event list" where
  "new_events b w = drop (length (log w)) (log (snd (get_image_urls b w)))"

text \<open>
  Concrete runs. \<open>example_round\<close> is the extraction of the specification's example. The
  browsers differ in what they list over time: always the example; the example in the
  first round (clock 10000 after the initial sleep from \<open>w0\<close>) and nothing afterwards; an
  exception in the first round; four images at once; four images only from the last
  round within the time budget (clock 68000) on.
\<close>

definition example_round :: "element list" where
  "example_round =
     [Inr (Some ''http://a''), Inr (Some ''http://a''), Inr (Some ''blob:b''), Inr (Some []),
      Inr (Some ''http://c'')]"

definition four_images :: "element list" where
  "four_images =
     [Inr (Some ''https://img/1''), Inr (Some ''https://img/2''), Inr (Some ''blob:3''),
      Inr (Some ''blob:4'')]"

definition w0 :: world where
  "w0 = \<lparr>clock = 0, log = []\<rparr>"

definition b_steady :: browser where
  "b_steady = \<lparr>find_elements = (\<lambda>t. Inr example_round), latency = (\<lambda>t. 0)\<rparr>"

definition b_vanish :: browser where
  "b_vanish =
     \<lparr>find_elements = (\<lambda>t. if t = 10000 then Inr example_round else Inr []),
      latency = (\<lambda>t. 0)\<rparr>"

definition b_flaky :: browser where
  "b_flaky =
     \<lparr>find_elements = (\<lambda>t. if t = 10000 then Inl WebDriverException else Inr four_images),
      latency = (\<lambda>t. 0)\<rparr>"

definition b_ready :: browser where
  "b_ready = \<lparr>find_elements = (\<lambda>t. Inr four_images), latency = (\<lambda>t. 150)\<rparr>"

definition b_late :: browser where
  "b_late =
     \<lparr>find_elements = (\<lambda>t. if t < 68000 then Inr [] else Inr four_images),
      latency = (\<lambda>t. 0)\<rparr>"

text \<open>
  In a trace, every round that kept at least 4 URLs is the last event and decides the
  result.
\<close>

definition stops_at_threshold :: "event list \<Rightarrow> error + string list \<Rightarrow> bool" where
  "stops_at_threshold evs r =
     (\<forall>pre urls post. evs = pre @ Polled urls # post \<and> 4 \<le> length urls \<longrightarrow> post = [] \<and> r = Inr urls)"

subsection \<open>Statements about the locator\<close>

text \<open>
  \<open>exactly_in p sel ctx\<close>: among the main document and its iframes, the selector is
  present in \<open>ctx\<close> and nowhere else (exactly one entry of the iframe list holds it, when
  \<open>ctx\<close> is an iframe). \<open>nowhere p sel\<close>: it is present in none of them. The two example
  pages have three iframes: the first is stale (the switch raises), the presence test
  raises in the second, and the third holds the selector or does not.
\<close>

definition exactly_in :: "page \<Rightarrow> string \<Rightarrow> context \<Rightarrow> bool" where
  "exactly_in p sel ctx =
     (case ctx of
        Main \<Rightarrow>
          present p sel Main = Inr True \<and> filter (holds_target p sel) (iframes p Main) = []
      | Frame f \<Rightarrow>
          present p sel Main = Inr False \<and> filter (holds_target p sel) (iframes p Main) = [f])"

definition nowhere :: "page \<Rightarrow> string \<Rightarrow> bool" where
  "nowhere p sel =
     (present p sel Main = Inr False \<and> filter (holds_target p sel) (iframes p Main) = [])"

definition page_in_frame :: page where
  "page_in_frame =
     \<lparr>present = (\<lambda>sel ctx.
        if ctx = Frame 2 then Inr True
        else if ctx = Frame 1 then Inl WebDriverException
        else Inr False),
      iframes = (\<lambda>ctx. if ctx = Main then [0, 1, 2] else []),
      can_switch = (\<lambda>ctx f. f \<noteq> 0)\<rparr>"

definition page_without :: page where
  "page_without =
     \<lparr>present = (\<lambda>sel ctx. if ctx = Frame 1 then Inl WebDriverException else Inr False),
      iframes = (\<lambda>ctx. if ctx = Main then [0, 1, 2] else []),
      can_switch = (\<lambda>ctx f. f \<noteq> 0)\<rparr>"

subsection \<open>Statements about the cookies\<close>

text \<open>A saved record, and the record the browser receives for it.\<close>

definition cookie0 :: "int cookie" where
  "cookie0 =
     [''name'' \<mapsto> JStr ''_U'', ''value'' \<mapsto> JStr ''abc'', ''domain'' \<mapsto> JStr ''.bing.com'',
      ''expires'' \<mapsto> JOther 1893456000, ''sameSite'' \<mapsto> JStr ''Lax'']"

definition filtered0 :: "int cookie" where
  "filtered0 =
     [''name'' \<mapsto> JStr ''_U'', ''value'' \<mapsto> JStr ''abc'', ''domain'' \<mapsto> JStr ''www.bing.com'',
      ''expiry'' \<mapsto> JOther 1893456000]"

subsection \<open>Statements about kebab-case names\<close>

text \<open>
  The shape of a normalised ASCII name: lower-case word characters and hyphens only, no
  two hyphens in a row. \<open>hello_world\<close> is the string \<^verbatim>\<open>" Hello, - World! "\<close>.
\<close>

fun no_double :: "ustring \<Rightarrow> bool" where
  "no_double [] = True"
| "no_double [c] = True"
| "no_double (c # d # r) = (\<not> (c = hyphen \<and> d = hyphen) \<and> no_double (d # r))"

definition kebab_form :: "unicode \<Rightarrow> ustring \<Rightarrow> bool" where
  "kebab_form U r =
     (list_all (\<lambda>x. x < 128 \<and> \<not> is_space U x \<and> (is_word U x \<or> x = hyphen) \<and> ascii_lower x = x) r \<and>
      no_double r)"

definition ascii_tables :: unicode where
  "ascii_tables = \<lparr>is_word = ascii_word, is_space = ascii_space, str_lower = map ascii_lower\<rparr>"

definition hello_world :: ustring where
  "hello_world = [32, 72, 101, 108, 108, 111, 44, 32, 45, 32, 87, 111, 114, 108, 100, 33, 32]"

section \<open>Properties of the poller\<close>

lemma pad_eq: "pad urls = urls @ replicate (4 - length urls) ''''"
proof (induction urls rule: pad.induct)
  case (1 urls)
  show ?case
  proof (cases "length urls < 4")
    case True
    then have "4 - length urls = Suc (4 - length (urls @ ['''']))" by simp
    moreover have "pad urls = pad (urls @ [''''])"
      using True by (subst pad.simps) simp
    ultimately show ?thesis
      using True 1 by (simp add: replicate_append_same del: replicate_Suc flip: replicate_Suc)
  next
    case False
    then show ?thesis by (subst pad.simps) simp
  qed
qed



text \<open>
  \<open>first_seen\<close> is the library's \<open>remdups\<close>, which keeps last occurrences, read from the
  other end.
\<close>

lemma remdups_snoc: "remdups (ys @ [x]) = filter (\<lambda>y. y \<noteq> x) (remdups ys) @ [x]"
  by (induction ys) auto

lemma first_seen_remdups: "first_seen xs = rev (remdups (rev xs))"
  by (induction xs) (simp_all add: remdups_snoc rev_filter)


lemma collect_ok:
  "\<forall>elem\<in>set elems. \<exists>src. elem = Inr src \<Longrightarrow> \<exists>urls. collect elems acc = Inr urls"
  by (induction elems arbitrary: acc) (auto split: option.splits)


lemma get_image_urls_fst:
  "fst (get_image_urls b w) =
     (case found_urls b w of Inl e \<Rightarrow> Inl e | Inr urls \<Rightarrow> Inr (take 4 (pad urls)))"
  by (simp add: get_image_urls_def found_urls_def Let_def split: prod.splits sum.splits)




lemma poll_loop_ok:
  "never_raises b \<Longrightarrow> \<exists>urls. fst (poll_loop b st w urls0) = Inr urls"
proof (induction b st w urls0 rule: poll_loop.induct)
  case (1 b st w urls0)
  show ?case
  proof (cases "clock w - st < poll_timeout")
    case False
    then show ?thesis by (simp add: poll_loop.simps)
  next
    case True
    from "1.prems" obtain elems where el: "find_elements b (clock w) = Inr elems"
      and ok: "\<forall>elem\<in>set elems. \<exists>src. elem = Inr src"
      unfolding never_raises_def by blast
    from collect_ok [OF ok] obtain urls' where c: "collect elems [] = Inr urls'" by blast
    show ?thesis
    proof (cases "4 \<le> length urls'")
      case True
      with \<open>clock w - st < poll_timeout\<close> el c show ?thesis
        by (simp add: poll_loop.simps [of b st w] Let_def)
    next
      case False
      from "1.IH" [OF True refl el c _ "1.prems"] False True el c show ?thesis
        by (simp add: poll_loop.simps [of b st w] Let_def)
    qed
  qed
qed

lemma poll_loop_raises:
  assumes "clock w - st < poll_timeout" and "round_raises b (clock w) e"
  shows "fst (poll_loop b st w urls) = Inl e"
  using assms
  by (subst poll_loop.simps) (auto simp: round_raises_def Let_def split: sum.splits)

text \<open>
  Claim C2, amended. The function has no exception handler. When no extraction call
  raises, it returns a sequence of length 4, also when the time budget runs out. A round
  that starts within the time budget and whose extraction raises ends the loop with that
  exception; so when the extraction of the first round raises, the exception leaves
  \<^verbatim>\<open>get_image_urls\<close>.
\<close>

theorem get_image_urls_raises_only_with_extraction:
  "(never_raises b \<longrightarrow> (\<exists>result. fst (get_image_urls b w) = Inr result \<and> length result = 4)) \<and>
   (clock w' - st < poll_timeout \<and> round_raises b (clock w') e \<longrightarrow>
      fst (poll_loop b st w' urls) = Inl e) \<and>
   (round_raises b (clock w + 10000) e \<longrightarrow> fst (get_image_urls b w) = Inl e)"
proof (intro conjI impI)
  assume "never_raises b"
  from poll_loop_ok [OF this] obtain urls where "found_urls b w = Inr urls"
    unfolding found_urls_def by blast
  then show "\<exists>result. fst (get_image_urls b w) = Inr result \<and> length result = 4"
    by (simp add: get_image_urls_fst pad_eq)
next
  assume "clock w' - st < poll_timeout \<and> round_raises b (clock w') e"
  then show "fst (poll_loop b st w' urls) = Inl e"
    by (simp add: poll_loop_raises)
next
  assume "round_raises b (clock w + 10000) e"
  then have "found_urls b w = Inl e"
    unfolding found_urls_def
    by (intro poll_loop_raises) (simp_all add: sleep_def poll_timeout_def)
  then show "fst (get_image_urls b w) = Inl e"
    by (simp add: get_image_urls_fst)
qed

text \<open>
  Claim C2 as stated fails: with a browser whose first lookup raises and whose later
  lookups would list four images, the call raises instead of polling on.
\<close>

theorem poller_raises_counterexample:
  "find_elements b_flaky 10000 = Inl WebDriverException \<and>
   fst (get_image_urls b_flaky w0) = Inl WebDriverException"
  by (simp add: get_image_urls_def Let_def w0_def sleep_def emit_def b_flaky_def
      poll_loop.simps poll_timeout_def)

lemma never_raises_ready: "never_raises b_ready"
  by (simp add: never_raises_def b_ready_def four_images_def)

lemma flaky_round_raises: "round_raises b_flaky (clock w0 + 10000) WebDriverException"
  by (simp add: round_raises_def b_flaky_def w0_def)

theorem get_image_urls_raises_only_with_extraction_witness:
  "never_raises b_ready \<and>
   (\<exists>result. fst (get_image_urls b_ready w0) = Inr result \<and> length result = 4) \<and>
   round_raises b_flaky (clock w0 + 10000) WebDriverException \<and>
   fst (get_image_urls b_flaky w0) = Inl WebDriverException"
proof -
  have "\<exists>result. fst (get_image_urls b_ready w0) = Inr result \<and> length result = 4"
    by (rule get_image_urls_raises_only_with_extraction [THEN conjunct1, rule_format,
          OF never_raises_ready])
  moreover have "fst (get_image_urls b_flaky w0) = Inl WebDriverException"
    by (rule get_image_urls_raises_only_with_extraction [THEN conjunct2, THEN conjunct2,
          rule_format, OF flaky_round_raises])
  ultimately show ?thesis
    using never_raises_ready flaky_round_raises by blast
qed



lemma collect_example:
  "collect example_round [] = Inr [''http://a'', ''blob:b'', ''http://c'']"
  by (simp add: example_round_def startswith_def)




lemma poll_loop_steady:
  assumes "\<forall>t. find_elements b t = Inr example_round"
  shows "fst (poll_loop b st w [''http://a'', ''blob:b'', ''http://c'']) =
         Inr [''http://a'', ''blob:b'', ''http://c'']"
  using assms
proof (induction b st w "[''http://a'', ''blob:b'', ''http://c'']" rule: poll_loop.induct)
  case (1 b st w)
  show ?case
  proof (cases "clock w - st < poll_timeout")
    case False
    then show ?thesis by (simp add: poll_loop.simps)
  next
    case True
    from "1.prems" have el: "find_elements b (clock w) = Inr example_round" by simp
    from "1.hyps" [OF True refl el collect_example _ "1.prems"] True el show ?thesis
      by (simp add: poll_loop.simps [of b st w] Let_def collect_example)
  qed
qed

text \<open>
  Claim C7, amended. When every round reads the example extraction (the page does not
  change while it is polled), the result is the three distinct valid URLs and one empty
  string.
\<close>

theorem unchanged_page_example:
  assumes "\<forall>t. find_elements b t = Inr example_round"
  shows "fst (get_image_urls b w) = Inr [''http://a'', ''blob:b'', ''http://c'', '''']"
proof -
  from assms have el: "find_elements b (clock w + 10000) = Inr example_round" by simp
  have "found_urls b w = Inr [''http://a'', ''blob:b'', ''http://c'']"
    using el poll_loop_steady [OF assms]
    by (simp add: found_urls_def sleep_def emit_def poll_loop.simps [of b "clock w + 10000" _ "[]"]
        poll_timeout_def collect_example Let_def)
  then show ?thesis
    by (simp add: get_image_urls_fst pad_eq)
qed

lemma steady_page: "\<forall>t. find_elements b_steady t = Inr example_round"
  by (simp add: b_steady_def)

theorem unchanged_page_example_witness:
  "(\<forall>t. find_elements b_steady t = Inr example_round) \<and>
   fst (get_image_urls b_steady w0) = Inr [''http://a'', ''blob:b'', ''http://c'', '''']"
  using unchanged_page_example [OF steady_page, of w0] steady_page by simp

lemma poll_loop_vanish:
  "10000 < clock w \<Longrightarrow>
   fst (poll_loop b_vanish st w urls0) = Inr (if clock w - st < poll_timeout then [] else urls0)"
proof (induction b_vanish st w urls0 rule: poll_loop.induct)
  case (1 st w urls0)
  show ?case
  proof (cases "clock w - st < poll_timeout")
    case False
    then show ?thesis by (simp add: poll_loop.simps)
  next
    case True
    from "1.prems" have el: "find_elements b_vanish (clock w) = Inr []"
      by (simp add: b_vanish_def)
    have "10000 < clock (sleep 2000 (emit (Polled []) (w\<lparr>clock := clock w + int (latency b_vanish (clock w))\<rparr>)))"
      using "1.prems" by (simp add: sleep_def emit_def)
    from "1.hyps" [OF True refl el _ _ this] True el show ?thesis
      by (simp add: poll_loop.simps [of b_vanish st w] Let_def)
  qed
qed

lemma vanish_first_round:
  "poll_loop b_vanish 10000 \<lparr>clock = 10000, log = [Slept 10000]\<rparr> [] =
   poll_loop b_vanish 10000
     \<lparr>clock = 12000,
        log = [Slept 10000, Polled [''http://a'', ''blob:b'', ''http://c''], Slept 2000]\<rparr>
     [''http://a'', ''blob:b'', ''http://c'']"
  by (subst poll_loop.simps)
     (simp add: b_vanish_def poll_timeout_def Let_def collect_example sleep_def emit_def)

text \<open>
  Claim C7 as stated fails: the first round reads the example extraction and the later
  rounds add nothing (they read no image at all), yet the result is four empty strings,
  because every round starts from an empty list.
\<close>

theorem later_round_overwrites_counterexample:
  "find_elements b_vanish (clock w0 + 10000) = Inr example_round \<and>
   fst (get_image_urls b_vanish w0) = Inr ['''', '''', '''', '''']"
proof -
  have "fst (poll_loop b_vanish 10000
          \<lparr>clock = 12000,
             log = [Slept 10000, Polled [''http://a'', ''blob:b'', ''http://c''], Slept 2000]\<rparr>
          [''http://a'', ''blob:b'', ''http://c'']) = Inr []"
    by (subst poll_loop_vanish) (simp_all add: poll_timeout_def)
  then have "found_urls b_vanish w0 = Inr []"
    by (simp add: found_urls_def w0_def sleep_def vanish_first_round)
  then have "fst (get_image_urls b_vanish w0) = Inr (replicate 4 [])"
    by (simp add: get_image_urls_fst pad_eq)
  moreover have "replicate 4 [] = [[], [], [], []::string]"
    by (simp add: numeral_eq_Suc)
  moreover have "find_elements b_vanish (clock w0 + 10000) = Inr example_round"
    by (simp add: b_vanish_def w0_def)
  ultimately show ?thesis by simp
qed

lemma stops_at_threshold_Nil: "stops_at_threshold [] r"
  by (simp add: stops_at_threshold_def)

lemma stops_at_threshold_single_ok: "stops_at_threshold [Polled urls] (Inr urls)"
  by (auto simp: stops_at_threshold_def Cons_eq_append_conv)

lemma stops_at_threshold_single_raised: "stops_at_threshold [Raised e] r"
  by (auto simp: stops_at_threshold_def Cons_eq_append_conv)

lemma stops_at_threshold_step:
  assumes "stops_at_threshold evs r" and "length urls < 4"
  shows "stops_at_threshold (Polled urls # Slept ms # evs) r"
  unfolding stops_at_threshold_def
proof (intro allI impI)
  fix pre us post
  assume a: "Polled urls # Slept ms # evs = pre @ Polled us # post \<and> 4 \<le> length us"
  then have "\<exists>pre'. evs = pre' @ Polled us # post"
    using assms(2) by (auto simp: Cons_eq_append_conv)
  with assms(1) a show "post = [] \<and> r = Inr us"
    unfolding stops_at_threshold_def by blast
qed

lemma poll_loop_log:
  "\<exists>evs. log (snd (poll_loop b st w urls0)) = log w @ evs \<and>
         stops_at_threshold evs (fst (poll_loop b st w urls0))"
proof (induction b st w urls0 rule: poll_loop.induct)
  case (1 b st w urls0)
  show ?case
  proof (cases "clock w - st < poll_timeout")
    case False
    then show ?thesis by (simp add: poll_loop.simps stops_at_threshold_Nil)
  next
    case True
    show ?thesis
    proof (cases "find_elements b (clock w)")
      case (Inl e)
      with True show ?thesis
        by (simp add: poll_loop.simps [of b st w] Let_def emit_def stops_at_threshold_single_raised)
    next
      case (Inr elems)
      show ?thesis
      proof (cases "collect elems []")
        case (Inl e)
        with True Inr show ?thesis
          by (simp add: poll_loop.simps [of b st w] Let_def emit_def stops_at_threshold_single_raised)
      next
        case found: (Inr urls')
        show ?thesis
        proof (cases "4 \<le> length urls'")
          case True
          with \<open>clock w - st < poll_timeout\<close> Inr found show ?thesis
            by (simp add: poll_loop.simps [of b st w] Let_def emit_def stops_at_threshold_single_ok)
        next
          case False
          let ?w' = "sleep 2000 (emit (Polled urls') (w\<lparr>clock := clock w + int (latency b (clock w))\<rparr>))"
          from "1.IH" [OF True refl Inr found False]
          obtain evs where l: "log (snd (poll_loop b st ?w' urls')) = log ?w' @ evs"
            and s: "stops_at_threshold evs (fst (poll_loop b st ?w' urls'))" by blast
          have eq: "poll_loop b st w urls0 = poll_loop b st ?w' urls'"
            using True False Inr found by (simp add: poll_loop.simps [of b st w] Let_def)
          have "log (snd (poll_loop b st w urls0)) = log w @ (Polled urls' # Slept 2000 # evs)"
            using l by (simp add: eq sleep_def emit_def)
          moreover have "stops_at_threshold (Polled urls' # Slept 2000 # evs) (fst (poll_loop b st w urls0))"
            using s False by (simp add: eq stops_at_threshold_step)
          ultimately show ?thesis by blast
        qed
      qed
    qed
  qed
qed

text \<open>
  Claim C8. In the trace of a call, a round that found at least 4 valid URLs is the last
  event: no sleep and no round follows it, whatever the clock reads, and its first 4 URLs
  are the result.
\<close>

theorem threshold_stops_polling:
  assumes "new_events b w = pre @ Polled urls # post" and "4 \<le> length urls"
  shows "post = [] \<and> fst (get_image_urls b w) = Inr (take 4 urls)"
proof -
  let ?w1 = "sleep 10000 w"
  from poll_loop_log [of b "clock ?w1" ?w1 "[]"]
  obtain evs where l: "log (snd (poll_loop b (clock ?w1) ?w1 [])) = log ?w1 @ evs"
    and s: "stops_at_threshold evs (found_urls b w)"
    unfolding found_urls_def by blast
  have "log (snd (get_image_urls b w)) = log (snd (poll_loop b (clock ?w1) ?w1 []))"
    by (simp add: get_image_urls_def Let_def split: prod.splits sum.splits)
  with l have "new_events b w = Slept 10000 # evs"
    by (simp add: new_events_def sleep_def)
  with assms(1) have "\<exists>pre'. evs = pre' @ Polled urls # post"
    by (auto simp: Cons_eq_append_conv)
  with s assms(2) have "post = []" and "found_urls b w = Inr urls"
    unfolding stops_at_threshold_def by blast+
  then show ?thesis using assms(2)
    by (simp add: get_image_urls_fst pad_eq)
qed

lemma late_run:
  "new_events b_late w0 =
     (Slept 10000 # concat (replicate 29 [Polled [], Slept 2000])) @
     Polled [''https://img/1'', ''https://img/2'', ''blob:3'', ''blob:4''] # []"
  by (simp add: new_events_def get_image_urls_def Let_def w0_def sleep_def emit_def b_late_def
      four_images_def poll_loop.simps poll_timeout_def startswith_def numeral_eq_Suc)

theorem threshold_stops_polling_witness:
  "new_events b_late w0 =
     (Slept 10000 # concat (replicate 29 [Polled [], Slept 2000])) @
     Polled [''https://img/1'', ''https://img/2'', ''blob:3'', ''blob:4''] # [] \<and>
   4 \<le> length [''https://img/1'', ''https://img/2'', ''blob:3'', ''blob:4''] \<and>
   fst (get_image_urls b_late w0) =
     Inr (take 4 [''https://img/1'', ''https://img/2'', ''blob:3'', ''blob:4''])"
proof -
  have "4 \<le> length [''https://img/1'', ''https://img/2'', ''blob:3'', ''blob:4'']" by simp
  from threshold_stops_polling [OF late_run this] late_run this show ?thesis by blast
qed

section \<open>Properties of the locator\<close>

lemma frame_search_step:
  "frame_search p sel (f # rest) ctx =
     (if can_switch p ctx f \<and> present p sel (Frame f) = Inr True then (True, Frame f)
      else frame_search p sel rest Main)"
  by (simp add: switch_to_frame_def is_element_present_def default_content_def split: sum.splits)

lemma frame_search_Main:
  "frame_search p sel fs Main =
     (case find (holds_target p sel) fs of None \<Rightarrow> (False, Main) | Some f \<Rightarrow> (True, Frame f))"
proof (induction fs)
  case Nil
  show ?case by (simp add: default_content_def)
next
  case (Cons f fs)
  then show ?case
    by (simp only: frame_search_step) (simp add: holds_target_def)
qed

lemma input_search_step:
  "input_search p (f # rest) ctx =
     (if can_switch p ctx f \<and> present p ''#gi_form_q'' (Frame f) = Inr True
      then (Inr (Frame f), Frame f)
      else input_search p rest Main)"
  by (simp add: switch_to_frame_def wait_for_element_present_def default_content_def
      split: sum.splits)

lemma input_search_Main:
  "input_search p fs Main =
     (case find (holds_target p ''#gi_form_q'') fs of
        None \<Rightarrow> (Inl CouldNotLocate, Main)
      | Some f \<Rightarrow> (Inr (Frame f), Frame f))"
proof (induction fs)
  case Nil
  show ?case by (simp add: default_content_def)
next
  case (Cons f fs)
  then show ?case
    by (simp only: input_search_step) (simp add: holds_target_def)
qed

lemma find_filter_Nil: "filter P fs = [] \<Longrightarrow> find P fs = None"
  by (simp add: find_None_iff filter_empty_conv)

lemma find_filter_single: "filter P fs = [f] \<Longrightarrow> find P fs = Some f"
  by (induction fs) (auto split: if_splits)

lemma switch_to_frame_with_eq:
  "switch_to_frame_with sel p ctx0 =
     (case present p sel Main of
        Inl e \<Rightarrow> (Inl e, Main)
      | Inr found \<Rightarrow>
          if found then (Inr True, Main)
          else (case find (holds_target p sel) (iframes p Main) of
                  None \<Rightarrow> (Inr False, Main)
                | Some f \<Rightarrow> (Inr True, Frame f)))"
  by (simp add: switch_to_frame_with_def default_content_def is_element_present_def Let_def
      frame_search_Main split: sum.splits option.splits)

lemma get_prompt_input_element_Main:
  "get_prompt_input_element p Main =
     (if present p ''#gi_form_q'' Main = Inr True then (Inr Main, Main)
      else (case find (holds_target p ''#gi_form_q'') (iframes p Main) of
              None \<Rightarrow> (Inl CouldNotLocate, Main)
            | Some f \<Rightarrow> (Inr (Frame f), Frame f)))"
  by (simp add: get_prompt_input_element_def wait_for_element_present_def input_search_Main
      split: sum.splits)

text \<open>
  Claim C3. When the prompt selector is present in exactly one context (the main document,
  or exactly one iframe of it), \<^verbatim>\<open>switch_to_prompt_frame\<close> returns \<^verbatim>\<open>True\<close> with that
  context current, whatever context was current on entry; so does
  \<^verbatim>\<open>_get_prompt_input_element\<close>, which has no reset of its own, when entered from the
  main document, and it returns the element of that context.
\<close>

theorem locator_finds_unique_context:
  assumes "exactly_in p ''#gi_form_q'' ctx"
  shows "switch_to_prompt_frame p ctx0 = (Inr True, ctx) \<and>
         get_prompt_input_element p Main = (Inr ctx, ctx)"
proof (cases ctx)
  case Main
  with assms have "present p ''#gi_form_q'' Main = Inr True"
    by (simp add: exactly_in_def)
  then show ?thesis using Main
    by (simp add: switch_to_prompt_frame_def switch_to_frame_with_eq get_prompt_input_element_Main)
next
  case (Frame f)
  with assms have m: "present p ''#gi_form_q'' Main = Inr False"
    and u: "filter (holds_target p ''#gi_form_q'') (iframes p Main) = [f]"
    by (simp_all add: exactly_in_def)
  from find_filter_single [OF u] m Frame show ?thesis
    by (simp add: switch_to_prompt_frame_def switch_to_frame_with_eq get_prompt_input_element_Main)
qed

lemma page_in_frame_exactly: "exactly_in page_in_frame ''#gi_form_q'' (Frame 2)"
  by (simp add: exactly_in_def page_in_frame_def holds_target_def)

theorem locator_finds_unique_context_witness:
  "exactly_in page_in_frame ''#gi_form_q'' (Frame 2) \<and>
   switch_to_prompt_frame page_in_frame (Frame 7) = (Inr True, Frame 2) \<and>
   get_prompt_input_element page_in_frame Main = (Inr (Frame 2), Frame 2)"
  using locator_finds_unique_context [OF page_in_frame_exactly, of "Frame 7"] page_in_frame_exactly
  by simp

lemma input_search_failure:
  "fst (input_search p fs ctx) = Inl e \<Longrightarrow> input_search p fs ctx = (Inl CouldNotLocate, Main)"
proof (induction fs arbitrary: ctx)
  case Nil
  then show ?case by (simp add: default_content_def)
next
  case (Cons f fs)
  then show ?case
    by (simp only: input_search_step split: if_splits) simp_all
qed

text \<open>
  Claim C4. When the selector is present neither in the main document nor in any iframe
  that can be searched, \<^verbatim>\<open>switch_to_prompt_frame\<close> returns \<^verbatim>\<open>False\<close> and
  \<^verbatim>\<open>_get_prompt_input_element\<close> raises its not-found error, with the main document
  current. Every exit of either function that is not a success leaves the main document
  current, from any entry context.
\<close>

theorem locator_failure_resets_context:
  "(nowhere p ''#gi_form_q'' \<longrightarrow>
      switch_to_prompt_frame p ctx0 = (Inr False, Main) \<and>
      get_prompt_input_element p Main = (Inl CouldNotLocate, Main)) \<and>
   (fst (switch_to_prompt_frame p ctx0) \<noteq> Inr True \<longrightarrow> snd (switch_to_prompt_frame p ctx0) = Main) \<and>
   (fst (get_prompt_input_element p ctx1) = Inl e \<longrightarrow>
      get_prompt_input_element p ctx1 = (Inl CouldNotLocate, Main))"
proof (intro conjI impI)
  assume n: "nowhere p ''#gi_form_q''"
  then have m: "present p ''#gi_form_q'' Main = Inr False"
    and f: "find (holds_target p ''#gi_form_q'') (iframes p Main) = None"
    by (simp_all add: nowhere_def find_filter_Nil)
  show "switch_to_prompt_frame p ctx0 = (Inr False, Main)"
    using m f by (simp add: switch_to_prompt_frame_def switch_to_frame_with_eq)
  show "get_prompt_input_element p Main = (Inl CouldNotLocate, Main)"
    using m f by (simp add: get_prompt_input_element_Main)
next
  assume "fst (switch_to_prompt_frame p ctx0) \<noteq> Inr True"
  then show "snd (switch_to_prompt_frame p ctx0) = Main"
    by (simp add: switch_to_prompt_frame_def switch_to_frame_with_eq
        split: sum.splits option.splits if_splits)
next
  assume a: "fst (get_prompt_input_element p ctx1) = Inl e"
  then have "fst (input_search p (iframes p ctx1) ctx1) = Inl e"
    and "get_prompt_input_element p ctx1 = input_search p (iframes p ctx1) ctx1"
    by (auto simp: get_prompt_input_element_def split: sum.splits)
  then show "get_prompt_input_element p ctx1 = (Inl CouldNotLocate, Main)"
    by (simp add: input_search_failure)
qed

lemma page_without_nowhere: "nowhere page_without ''#gi_form_q''"
  by (simp add: nowhere_def page_without_def holds_target_def)

theorem locator_failure_resets_context_witness:
  "nowhere page_without ''#gi_form_q'' \<and>
   switch_to_prompt_frame page_without (Frame 7) = (Inr False, Main) \<and>
   get_prompt_input_element page_without Main = (Inl CouldNotLocate, Main) \<and>
   fst (switch_to_prompt_frame page_without (Frame 7)) \<noteq> Inr True \<and>
   snd (switch_to_prompt_frame page_without (Frame 7)) = Main \<and>
   fst (get_prompt_input_element page_without Main) = Inl CouldNotLocate"
proof -
  from locator_failure_resets_context [of page_without "Frame 7" Main CouldNotLocate]
    page_without_nowhere
  have a: "switch_to_prompt_frame page_without (Frame 7) = (Inr False, Main)"
    and b: "get_prompt_input_element page_without Main = (Inl CouldNotLocate, Main)"
    by blast+
  show ?thesis
    using page_without_nowhere by (simp add: a b)
qed

lemma holds_target_quiet: "holds_target (quiet p) sel f = holds_target p sel f"
  by (simp add: holds_target_def quiet_def split: sum.splits)

lemma frame_raises_not_holding:
  "frame_raises p sel Main f \<Longrightarrow> \<not> holds_target p sel f"
  by (auto simp: frame_raises_def holds_target_def)

lemma find_after_skipped:
  "\<forall>g\<in>set pre. \<not> P g \<Longrightarrow> P h \<Longrightarrow> find P (pre @ h # post) = Some h"
  by (induction pre) simp_all

lemma frame_search_past_raising:
  assumes "\<forall>g\<in>set pre. frame_raises p sel Main g" and "holds_target p sel h"
  shows "frame_search p sel (pre @ h # post) Main = (True, Frame h)"
proof -
  from assms(1) have "\<forall>g\<in>set pre. \<not> holds_target p sel g"
    by (simp add: frame_raises_not_holding)
  from find_after_skipped [OF this assms(2)] show ?thesis
    by (simp add: frame_search_Main)
qed

lemma frame_search_all_raising:
  assumes "\<forall>g\<in>set fs. frame_raises p sel Main g"
  shows "frame_search p sel fs Main = (False, Main)"
proof -
  from assms have "\<forall>g\<in>set fs. \<not> holds_target p sel g"
    by (simp add: frame_raises_not_holding)
  then have "find (holds_target p sel) fs = None"
    by (simp add: find_None_iff)
  then show ?thesis by (simp add: frame_search_Main)
qed

text \<open>
  Claim C5. An iframe whose switch or presence test raises is skipped: the loop goes on
  with the next iframe from the main document. The search that goes on still finds its
  target: when every iframe listed before one that holds the selector raises, the loop and
  \<^verbatim>\<open>switch_to_prompt_frame\<close> return \<^verbatim>\<open>True\<close> with that iframe current; when every
  iframe raises, the loop returns \<^verbatim>\<open>False\<close> with the main document current. The
  locator answers as it does on the page where such frames simply do not contain the
  selector, and once the main document has been tested it always returns a truth value,
  never an exception.
\<close>

theorem frame_exceptions_swallowed:
  "(frame_raises p sel ctx f \<longrightarrow> frame_search p sel (f # rest) ctx = frame_search p sel rest Main) \<and>
   switch_to_prompt_frame (quiet p) ctx0 = switch_to_prompt_frame p ctx0 \<and>
   (present p ''#gi_form_q'' Main = Inr False \<longrightarrow>
      (\<exists>found. fst (switch_to_prompt_frame p ctx0) = Inr found)) \<and>
   ((\<forall>g\<in>set pre. frame_raises p sel Main g) \<and> holds_target p sel h \<longrightarrow>
      frame_search p sel (pre @ h # post) Main = (True, Frame h)) \<and>
   ((\<forall>g\<in>set fs. frame_raises p sel Main g) \<longrightarrow> frame_search p sel fs Main = (False, Main)) \<and>
   (present p ''#gi_form_q'' Main = Inr False \<and> iframes p Main = pre @ h # post \<and>
    (\<forall>g\<in>set pre. frame_raises p ''#gi_form_q'' Main g) \<and> holds_target p ''#gi_form_q'' h \<longrightarrow>
      switch_to_prompt_frame p ctx0 = (Inr True, Frame h)) \<and>
   (present p ''#gi_form_q'' Main = Inr False \<and>
    (\<forall>g\<in>set (iframes p Main). frame_raises p ''#gi_form_q'' Main g) \<longrightarrow>
      switch_to_prompt_frame p ctx0 = (Inr False, Main))"
proof (intro conjI impI)
  assume "frame_raises p sel ctx f"
  then have "\<not> (can_switch p ctx f \<and> present p sel (Frame f) = Inr True)"
    by (auto simp: frame_raises_def)
  then show "frame_search p sel (f # rest) ctx = frame_search p sel rest Main"
    by (simp only: frame_search_step if_False)
next
  have "holds_target (quiet p) ''#gi_form_q'' = holds_target p ''#gi_form_q''"
    by (rule ext) (rule holds_target_quiet)
  moreover have "present (quiet p) ''#gi_form_q'' Main = present p ''#gi_form_q'' Main"
    and "iframes (quiet p) Main = iframes p Main"
    by (simp_all add: quiet_def)
  ultimately show "switch_to_prompt_frame (quiet p) ctx0 = switch_to_prompt_frame p ctx0"
    by (simp only: switch_to_prompt_frame_def switch_to_frame_with_eq)
next
  assume "present p ''#gi_form_q'' Main = Inr False"
  then show "\<exists>found. fst (switch_to_prompt_frame p ctx0) = Inr found"
    by (auto simp: switch_to_prompt_frame_def switch_to_frame_with_eq split: option.splits)
next
  assume "(\<forall>g\<in>set pre. frame_raises p sel Main g) \<and> holds_target p sel h"
  then show "frame_search p sel (pre @ h # post) Main = (True, Frame h)"
    by (simp add: frame_search_past_raising)
next
  assume "\<forall>g\<in>set fs. frame_raises p sel Main g"
  then show "frame_search p sel fs Main = (False, Main)"
    by (rule frame_search_all_raising)
next
  assume a: "present p ''#gi_form_q'' Main = Inr False \<and> iframes p Main = pre @ h # post \<and>
    (\<forall>g\<in>set pre. frame_raises p ''#gi_form_q'' Main g) \<and> holds_target p ''#gi_form_q'' h"
  then have "frame_search p ''#gi_form_q'' (iframes p Main) Main = (True, Frame h)"
    by (simp add: frame_search_past_raising)
  with a show "switch_to_prompt_frame p ctx0 = (Inr True, Frame h)"
    by (simp add: switch_to_prompt_frame_def switch_to_frame_with_def default_content_def
        is_element_present_def)
next
  assume a: "present p ''#gi_form_q'' Main = Inr False \<and>
    (\<forall>g\<in>set (iframes p Main). frame_raises p ''#gi_form_q'' Main g)"
  then have "frame_search p ''#gi_form_q'' (iframes p Main) Main = (False, Main)"
    by (simp add: frame_search_all_raising)
  with a show "switch_to_prompt_frame p ctx0 = (Inr False, Main)"
    by (simp add: switch_to_prompt_frame_def switch_to_frame_with_def default_content_def
        is_element_present_def)
qed

lemma stale_frame_raises: "frame_raises page_in_frame ''#gi_form_q'' Main 0"
  by (simp add: frame_raises_def page_in_frame_def)

lemma lookup_frame_raises: "frame_raises page_in_frame ''#gi_form_q'' Main 1"
  by (simp add: frame_raises_def page_in_frame_def)

lemma page_in_frame_main: "present page_in_frame ''#gi_form_q'' Main = Inr False"
  by (simp add: page_in_frame_def)

lemma page_in_frame_iframes: "iframes page_in_frame Main = [0, 1] @ 2 # []"
  by (simp add: page_in_frame_def)

lemma page_in_frame_holder: "holds_target page_in_frame ''#gi_form_q'' 2"
  by (simp add: holds_target_def page_in_frame_def)

lemma page_in_frame_raising_prefix:
  "\<forall>g\<in>set [0, 1]. frame_raises page_in_frame ''#gi_form_q'' Main g"
  using stale_frame_raises lookup_frame_raises by simp

theorem frame_exceptions_swallowed_witness:
  "frame_raises page_in_frame ''#gi_form_q'' Main 0 \<and>
   frame_raises page_in_frame ''#gi_form_q'' Main 1 \<and>
   holds_target page_in_frame ''#gi_form_q'' 2 \<and>
   present page_in_frame ''#gi_form_q'' Main = Inr False \<and>
   iframes page_in_frame Main = [0, 1] @ 2 # [] \<and>
   frame_search page_in_frame ''#gi_form_q'' (0 # [1, 2]) Main =
     frame_search page_in_frame ''#gi_form_q'' [1, 2] Main \<and>
   frame_search page_in_frame ''#gi_form_q'' ([0, 1] @ 2 # []) Main = (True, Frame 2) \<and>
   switch_to_prompt_frame page_in_frame (Frame 7) = (Inr True, Frame 2)"
proof -
  note t = frame_exceptions_swallowed
    [of page_in_frame "''#gi_form_q''" Main 0 "[1, 2]" "Frame 7" "[0, 1]" 2 "[]"]
  have 1: "frame_search page_in_frame ''#gi_form_q'' (0 # [1, 2]) Main =
     frame_search page_in_frame ''#gi_form_q'' [1, 2] Main"
    by (rule t [THEN conjunct1, rule_format, OF stale_frame_raises])
  have 2: "frame_search page_in_frame ''#gi_form_q'' ([0, 1] @ 2 # []) Main = (True, Frame 2)"
    by (rule t [THEN conjunct2, THEN conjunct2, THEN conjunct2, THEN conjunct1, rule_format,
          OF conjI, OF page_in_frame_raising_prefix page_in_frame_holder])
  have 3: "switch_to_prompt_frame page_in_frame (Frame 7) = (Inr True, Frame 2)"
    by (rule t [THEN conjunct2, THEN conjunct2, THEN conjunct2, THEN conjunct2, THEN conjunct2,
          THEN conjunct1, rule_format])
       (intro conjI page_in_frame_main page_in_frame_iframes page_in_frame_raising_prefix
          page_in_frame_holder)
  show ?thesis
    by (intro conjI stale_frame_raises lookup_frame_raises page_in_frame_holder
        page_in_frame_main page_in_frame_iframes 1 2 3)
qed

section \<open>Properties of the cookie loader\<close>

lemma adjust_domain_Inr:
  assumes "adjust_domain c = Inr c'"
  shows "(\<forall>d. c ''domain'' = Some (JStr d) \<and> startswith d ''.'' \<longrightarrow>
            c' = c(''domain'' \<mapsto> JStr ''www.bing.com'')) \<and>
         (\<forall>d. c ''domain'' = Some (JStr d) \<and> \<not> startswith d ''.'' \<longrightarrow> c' = c) \<and>
         (c ''domain'' = None \<longrightarrow> c' = c)"
  using assms
  by (auto simp: adjust_domain_def startswith_def split: option.splits jvalue.splits if_splits)

lemma adjust_domain_other:
  assumes "adjust_domain c = Inr c'" and "k \<noteq> ''domain''"
  shows "c' k = c k"
  using assms
  by (auto simp: adjust_domain_def split: option.splits jvalue.splits if_splits)

lemma prepare_cookie_Inr:
  assumes "prepare_cookie cookie = Inr fc"
  obtains c' where "adjust_domain (rename_expires cookie) = Inr c'" and "fc = filter_allowed c'"
  using assms by (auto simp: prepare_cookie_def split: sum.splits)

lemma rename_expires_domain: "rename_expires cookie ''domain'' = cookie ''domain''"
  by (simp add: rename_expires_def split: option.splits)

lemma domain_allowed: "''domain'' \<in> allowed_keys"
  by (simp add: allowed_keys_def)

lemma expiry_allowed: "''expiry'' \<in> allowed_keys"
  by (simp add: allowed_keys_def)

lemma expires_not_allowed: "''expires'' \<notin> allowed_keys"
  by (simp add: allowed_keys_def)

text \<open>
  Claim C9. For a record that \<^verbatim>\<open>load_cookies\<close> hands to the browser: a domain starting
  with a dot has become \<^verbatim>\<open>www.bing.com\<close>; an \<^verbatim>\<open>expires\<close> field is gone and its
  value is under \<^verbatim>\<open>expiry\<close>; a domain without a leading dot, an \<^verbatim>\<open>expiry\<close> of a
  record without \<^verbatim>\<open>expires\<close>, and every other allowed field keep their values; keys
  outside the allowed set are dropped.
\<close>

theorem prepare_cookie_fields:
  assumes "prepare_cookie cookie = Inr fc"
  shows "(\<forall>d. cookie ''domain'' = Some (JStr d) \<and> startswith d ''.'' \<longrightarrow>
            fc ''domain'' = Some (JStr ''www.bing.com'')) \<and>
         (\<forall>v. cookie ''expires'' = Some v \<longrightarrow> fc ''expires'' = None \<and> fc ''expiry'' = Some v) \<and>
         (\<forall>d. cookie ''domain'' = Some (JStr d) \<and> \<not> startswith d ''.'' \<longrightarrow>
            fc ''domain'' = cookie ''domain'') \<and>
         (cookie ''domain'' = None \<longrightarrow> fc ''domain'' = None) \<and>
         (cookie ''expires'' = None \<longrightarrow> fc ''expiry'' = cookie ''expiry'') \<and>
         (\<forall>k\<in>allowed_keys. k \<noteq> ''domain'' \<and> k \<noteq> ''expiry'' \<longrightarrow> fc k = cookie k) \<and>
         (\<forall>k. k \<notin> allowed_keys \<longrightarrow> fc k = None)"
proof -
  from assms obtain c' where a: "adjust_domain (rename_expires cookie) = Inr c'"
    and f: "fc = filter_allowed c'"
    by (rule prepare_cookie_Inr)
  note dom = adjust_domain_Inr [OF a, unfolded rename_expires_domain]
  have other: "c' k = rename_expires cookie k" if "k \<noteq> ''domain''" for k
    using adjust_domain_other [OF a that] .
  have "\<forall>d. cookie ''domain'' = Some (JStr d) \<and> startswith d ''.'' \<longrightarrow>
          fc ''domain'' = Some (JStr ''www.bing.com'')"
    using dom by (auto simp: f filter_allowed_def domain_allowed)
  moreover have "\<forall>v. cookie ''expires'' = Some v \<longrightarrow> fc ''expires'' = None \<and> fc ''expiry'' = Some v"
    using other [of "''expiry''"]
    by (auto simp: f filter_allowed_def expiry_allowed expires_not_allowed rename_expires_def)
  moreover have "\<forall>d. cookie ''domain'' = Some (JStr d) \<and> \<not> startswith d ''.'' \<longrightarrow>
          fc ''domain'' = cookie ''domain''"
    using dom by (auto simp: f filter_allowed_def domain_allowed rename_expires_domain)
  moreover have "cookie ''domain'' = None \<longrightarrow> fc ''domain'' = None"
    using dom by (auto simp: f filter_allowed_def domain_allowed rename_expires_domain)
  moreover have "cookie ''expires'' = None \<longrightarrow> fc ''expiry'' = cookie ''expiry''"
    using other [of "''expiry''"]
    by (auto simp: f filter_allowed_def expiry_allowed rename_expires_def)
  moreover have "\<forall>k\<in>allowed_keys. k \<noteq> ''domain'' \<and> k \<noteq> ''expiry'' \<longrightarrow> fc k = cookie k"
  proof (intro ballI impI)
    fix k assume k: "k \<in> allowed_keys" "k \<noteq> ''domain'' \<and> k \<noteq> ''expiry''"
    then have "k \<noteq> ''expires''" using expires_not_allowed by auto
    with k have "rename_expires cookie k = cookie k"
      by (simp add: rename_expires_def split: option.splits)
    with other [of k] k show "fc k = cookie k"
      by (simp add: f filter_allowed_def)
  qed
  moreover have "\<forall>k. k \<notin> allowed_keys \<longrightarrow> fc k = None"
    by (simp add: f filter_allowed_def)
  ultimately show ?thesis by blast
qed

lemma prepare_cookie0: "prepare_cookie cookie0 = Inr filtered0"
  by (auto simp: prepare_cookie_def adjust_domain_def rename_expires_def filter_allowed_def
      cookie0_def filtered0_def allowed_keys_def startswith_def fun_eq_iff)

lemma cookie0_domain:
  "cookie0 ''domain'' = Some (JStr ''.bing.com'') \<and> startswith ''.bing.com'' ''.''"
  by (simp add: cookie0_def startswith_def)

lemma cookie0_expires: "cookie0 ''expires'' = Some (JOther 1893456000)"
  by (simp add: cookie0_def)

lemma name_kept: "''name'' \<in> allowed_keys" "''name'' \<noteq> ''domain'' \<and> ''name'' \<noteq> ''expiry''"
  by (simp_all add: allowed_keys_def)

lemma sameSite_dropped: "''sameSite'' \<notin> allowed_keys"
  by (simp add: allowed_keys_def)

theorem prepare_cookie_fields_witness:
  "prepare_cookie cookie0 = Inr filtered0 \<and>
   (cookie0 ''domain'' = Some (JStr ''.bing.com'') \<and> startswith ''.bing.com'' ''.'') \<and>
   filtered0 ''domain'' = Some (JStr ''www.bing.com'') \<and>
   cookie0 ''expires'' = Some (JOther 1893456000) \<and>
   (filtered0 ''expires'' = None \<and> filtered0 ''expiry'' = Some (JOther 1893456000)) \<and>
   ''name'' \<in> allowed_keys \<and> filtered0 ''name'' = cookie0 ''name'' \<and>
   ''sameSite'' \<notin> allowed_keys \<and> filtered0 ''sameSite'' = None"
proof -
  note t = prepare_cookie_fields [OF prepare_cookie0]
  have 1: "filtered0 ''domain'' = Some (JStr ''www.bing.com'')"
    by (rule t [THEN conjunct1, rule_format, OF cookie0_domain])
  have 2: "filtered0 ''expires'' = None \<and> filtered0 ''expiry'' = Some (JOther 1893456000)"
    by (rule t [THEN conjunct2, THEN conjunct1, rule_format, OF cookie0_expires])
  have 3: "filtered0 ''name'' = cookie0 ''name''"
    by (rule t [THEN conjunct2, THEN conjunct2, THEN conjunct2, THEN conjunct2, THEN conjunct2,
          THEN conjunct1, rule_format, OF name_kept])
  have 4: "filtered0 ''sameSite'' = None"
    by (rule t [THEN conjunct2, THEN conjunct2, THEN conjunct2, THEN conjunct2, THEN conjunct2,
          THEN conjunct2, rule_format, OF sameSite_dropped])
  show ?thesis
    by (intro conjI prepare_cookie0 cookie0_domain [THEN conjunct1] cookie0_domain [THEN conjunct2]
        cookie0_expires name_kept(1) sameSite_dropped 1 2 [THEN conjunct1] 2 [THEN conjunct2] 3 4)
qed

text \<open>
  Every record that reaches the browser is the prepared form of a record of the file.
\<close>

lemma load_cookies_sends_prepared:
  "fc \<in> set (snd (load_cookies accepts cookies jar)) \<Longrightarrow>
   fc \<in> set jar \<or> (\<exists>cookie\<in>set cookies. prepare_cookie cookie = Inr fc)"
proof (induction cookies arbitrary: jar)
  case Nil
  then show ?case by simp
next
  case (Cons cookie cookies)
  show ?case
  proof (cases "prepare_cookie cookie")
    case (Inl e)
    with Cons.prems show ?thesis by simp
  next
    case (Inr filtered_cookie)
    let ?jar = "if accepts filtered_cookie then jar @ [filtered_cookie] else jar"
    from Cons.prems Inr have "fc \<in> set (snd (load_cookies accepts cookies ?jar))" by simp
    from Cons.IH [OF this]
    have "fc \<in> set ?jar \<or> (\<exists>c\<in>set cookies. prepare_cookie c = Inr fc)" .
    then show ?thesis using Inr by (auto split: if_splits)
  qed
qed

section \<open>Properties of to_kebab_case\<close>

lemma dropWhile_none: "\<forall>x\<in>set xs. \<not> P x \<Longrightarrow> dropWhile P xs = xs"
  by (cases xs) simp_all

lemma strip_none: "\<forall>x\<in>set r. \<not> is_space U x \<Longrightarrow> strip U r = r"
  by (simp add: strip_def dropWhile_none)

lemma set_strip: "set (strip U s) \<subseteq> set s"
proof -
  have "set (strip U s) \<subseteq> set (dropWhile (is_space U) s)"
    using set_dropWhileD [of _ "is_space U" "rev (dropWhile (is_space U) s)"]
    by (auto simp: strip_def)
  then show ?thesis using set_dropWhileD [of _ "is_space U" s] by blast
qed

lemma set_squeeze:
  "x \<in> set (squeeze U t) \<Longrightarrow> x = hyphen \<or> (x \<in> set t \<and> \<not> is_sep U x)"
proof (induction U t rule: squeeze.induct)
  case (1 U)
  then show ?case by simp
next
  case (2 U c cs)
  show ?case
  proof (cases "is_sep U c")
    case True
    with "2.prems" have "x = hyphen \<or> x \<in> set (squeeze U (dropWhile (is_sep U) cs))" by simp
    then show ?thesis
    proof
      assume "x = hyphen" then show ?thesis by simp
    next
      assume "x \<in> set (squeeze U (dropWhile (is_sep U) cs))"
      from "2.IH"(1) [OF True this] show ?thesis
        by (auto dest: set_dropWhileD)
    qed
  next
    case False
    with "2.prems" have "x = c \<or> x \<in> set (squeeze U cs)" by simp
    then show ?thesis
    proof
      assume "x = c" with False show ?thesis by simp
    next
      assume "x \<in> set (squeeze U cs)"
      from "2.IH"(2) [OF False this] show ?thesis by auto
    qed
  qed
qed

lemma no_double_Cons: "c \<noteq> hyphen \<Longrightarrow> no_double t \<Longrightarrow> no_double (c # t)"
  by (cases t) simp_all

lemma no_double_squeeze: "no_double (squeeze U t)"
proof (induction U t rule: squeeze.induct)
  case (1 U)
  show ?case by simp
next
  case (2 U c cs)
  show ?case
  proof (cases "is_sep U c")
    case False
    then have "c \<noteq> hyphen" by (auto simp: is_sep_def)
    with False "2.IH"(2) show ?thesis by (simp add: no_double_Cons)
  next
    case True
    let ?ds = "dropWhile (is_sep U) cs"
    from "2.IH"(1) [OF True] have ih: "no_double (squeeze U ?ds)" .
    show ?thesis
    proof (cases ?ds)
      case Nil
      have "squeeze U (c # cs) = hyphen # squeeze U ?ds" using True by simp
      then show ?thesis unfolding Nil by simp
    next
      case (Cons d ds')
      then have "\<not> is_sep U d"
        using hd_dropWhile [of "is_sep U" cs] by simp
      then have "squeeze U ?ds = d # squeeze U ds'" and "d \<noteq> hyphen"
        using Cons by (auto simp: is_sep_def)
      with ih True show ?thesis by simp
    qed
  qed
qed

lemma squeeze_fixed:
  "\<forall>x\<in>set t. \<not> is_space U x \<Longrightarrow> no_double t \<Longrightarrow> squeeze U t = t"
proof (induction t rule: no_double.induct)
  case 1
  show ?case by simp
next
  case (2 c)
  then show ?case by (auto simp: is_sep_def)
next
  case (3 c d r)
  then have ih: "squeeze U (d # r) = d # r" by simp
  from "3.prems" have d: "d = hyphen \<or> \<not> is_sep U d" by (auto simp: is_sep_def)
  show ?case
  proof (cases "is_sep U c")
    case False
    with ih show ?thesis by simp
  next
    case True
    with "3.prems" have "c = hyphen" by (auto simp: is_sep_def)
    with "3.prems" d have "\<not> is_sep U d" by auto
    with True ih \<open>c = hyphen\<close> show ?thesis by simp
  qed
qed

lemma ascii_lower_facts:
  "ascii_lower (ascii_lower c) = ascii_lower c"
  "c < 128 \<Longrightarrow> ascii_lower c < 128"
  "ascii_word c \<Longrightarrow> ascii_word (ascii_lower c)"
  "ascii_word c \<Longrightarrow> \<not> ascii_space (ascii_lower c)"
  "ascii_lower c = hyphen \<longleftrightarrow> c = hyphen"
  by (auto simp: ascii_lower_def ascii_word_def ascii_space_def hyphen_def)

lemma hyphen_facts: "hyphen < 128" "\<not> ascii_space hyphen" "\<not> ascii_word hyphen"
  by (simp_all add: hyphen_def ascii_space_def ascii_word_def)

lemma no_double_lower: "no_double t \<Longrightarrow> no_double (map ascii_lower t)"
  by (induction t rule: no_double.induct) (simp_all add: ascii_lower_facts)

lemma kebab_fixed:
  assumes "agrees_with_ascii U" and "kebab_form U r"
  shows "to_kebab_case U r = r"
proof -
  from assms(2) have el: "\<forall>x\<in>set r. x < 128 \<and> \<not> is_space U x \<and> (is_word U x \<or> x = hyphen) \<and> ascii_lower x = x"
    and nd: "no_double r"
    by (simp_all add: kebab_form_def list_all_iff)
  from el have "strip U r = r" by (simp add: strip_none)
  moreover from el have "remove_other U r = r" by (simp add: remove_other_def)
  moreover from el nd have "squeeze U r = r" by (simp add: squeeze_fixed)
  moreover from el have "is_ascii r" by (simp add: is_ascii_def list_all_iff)
  with assms(1) have "str_lower U r = map ascii_lower r" by (simp add: agrees_with_ascii_def)
  moreover from el have "map ascii_lower r = r" by (simp add: map_idI)
  ultimately show ?thesis by (simp add: to_kebab_case_def)
qed

lemma kebab_form_result:
  assumes "agrees_with_ascii U" and "is_ascii s"
  shows "kebab_form U (to_kebab_case U s)"
proof -
  let ?k = "squeeze U (remove_other U (strip U s))"
  from assms(1) have w: "\<And>c. c < 128 \<Longrightarrow> is_word U c = ascii_word c"
    and sp: "\<And>c. c < 128 \<Longrightarrow> is_space U c = ascii_space c"
    by (simp_all add: agrees_with_ascii_def)
  from assms(2) have s128: "\<forall>y\<in>set s. y < 128" by (simp add: is_ascii_def list_all_iff)
  have k: "y = hyphen \<or> (y < 128 \<and> ascii_word y)" if "y \<in> set ?k" for y
  proof -
    from set_squeeze [OF that] show ?thesis
    proof
      assume "y = hyphen" then show ?thesis by simp
    next
      assume a: "y \<in> set (remove_other U (strip U s)) \<and> \<not> is_sep U y"
      then have "y \<in> set s" using set_strip [of U s] by (auto simp: remove_other_def)
      with s128 have "y < 128" by simp
      moreover from a have "is_word U y" by (auto simp: remove_other_def is_sep_def)
      ultimately show ?thesis using w by simp
    qed
  qed
  then have "is_ascii ?k"
    using hyphen_facts(1) by (auto simp: is_ascii_def list_all_iff)
  with assms(1) have res: "to_kebab_case U s = map ascii_lower ?k"
    by (simp add: to_kebab_case_def agrees_with_ascii_def)
  have "x < 128 \<and> \<not> is_space U x \<and> (is_word U x \<or> x = hyphen) \<and> ascii_lower x = x"
    if "x \<in> set (map ascii_lower ?k)" for x
  proof -
    from that obtain y where y: "y \<in> set ?k" and x: "x = ascii_lower y" by auto
    from k [OF y] show ?thesis
    proof
      assume "y = hyphen"
      then have "x = hyphen" using x ascii_lower_facts(5) [of y] by simp
      then show ?thesis
        using hyphen_facts sp [of hyphen] ascii_lower_facts(5) [of hyphen] by simp
    next
      assume a: "y < 128 \<and> ascii_word y"
      then have "x < 128" and "ascii_word x" and "\<not> ascii_space x"
        using x ascii_lower_facts(2,3,4) [of y] by simp_all
      then show ?thesis
        using w [of x] sp [of x] x ascii_lower_facts(1) [of y] by simp
    qed
  qed
  moreover have "no_double (map ascii_lower ?k)"
    by (rule no_double_lower) (rule no_double_squeeze)
  ultimately show ?thesis
    unfolding res kebab_form_def list_all_iff by blast
qed

text \<open>
  Claim C10, amended. On an ASCII string, with tables that agree with ASCII on ASCII,
  normalising twice gives the same name as normalising once.
\<close>

theorem to_kebab_case_idempotent_ascii:
  assumes "agrees_with_ascii U" and "is_ascii s"
  shows "to_kebab_case U (to_kebab_case U s) = to_kebab_case U s"
  using kebab_fixed [OF assms(1) kebab_form_result [OF assms]] .

text \<open>
  Claim C10 as stated fails beyond ASCII: the one-letter string U+0130 is normalised to
  U+0069 U+0307, and normalising that again deletes the combining mark, leaving U+0069.
\<close>

theorem to_kebab_case_not_idempotent_counterexample:
  "to_kebab_case unicode_sample [304] = [105, 775] \<and>
   to_kebab_case unicode_sample (to_kebab_case unicode_sample [304]) = [105]"
  by (simp add: to_kebab_case_def unicode_sample_def lower_sample_def strip_def remove_other_def
      is_sep_def ascii_word_def ascii_space_def ascii_lower_def hyphen_def)

lemma ascii_tables_agree: "agrees_with_ascii ascii_tables"
  by (simp add: agrees_with_ascii_def ascii_tables_def)

lemma hello_world_ascii: "is_ascii hello_world"
  by (simp add: is_ascii_def hello_world_def)

lemma hello_world_kebab:
  "to_kebab_case ascii_tables hello_world = [104, 101, 108, 108, 111, 45, 119, 111, 114, 108, 100]"
  by (simp add: to_kebab_case_def ascii_tables_def hello_world_def strip_def remove_other_def
      is_sep_def ascii_word_def ascii_space_def ascii_lower_def hyphen_def)

theorem to_kebab_case_idempotent_ascii_witness:
  "agrees_with_ascii ascii_tables \<and> is_ascii hello_world \<and>
   to_kebab_case ascii_tables [104, 101, 108, 108, 111, 45, 119, 111, 114, 108, 100] =
     [104, 101, 108, 108, 111, 45, 119, 111, 114, 108, 100]"
  using to_kebab_case_idempotent_ascii [OF ascii_tables_agree hello_world_ascii]
    ascii_tables_agree hello_world_ascii
  by (simp add: hello_world_kebab)

text \<open>
  The tables of the counterexample agree with ASCII on ASCII: the failure comes from the
  input alone.
\<close>

lemma unicode_sample_agrees: "agrees_with_ascii unicode_sample"
proof -
  have "concat (map lower_sample s) = map ascii_lower s" if "is_ascii s" for s
    using that by (induction s) (simp_all add: is_ascii_def lower_sample_def)
  then show ?thesis
    by (simp add: agrees_with_ascii_def unicode_sample_def)
qed

end
